theory Spec2Isabelle
  imports Main "HOL-Library.Word" "HOL-Library.Sublist"
begin

unbundle bit_operations_syntax

section \<open>Bytes, pointers and failures\<close>

text \<open>
  PNGFuse works on \<^verbatim>\<open>unsigned char\<close> buffers through raw pointers. A byte is an 8-bit
  word. A pointer into a buffer is modelled by the bytes from the pointer up to the end of
  the buffer (for pointers into the image buffer that is \<^verbatim>\<open>end\<close>, the end of the image),
  so \<^verbatim>\<open>p + n\<close> is \<open>drop n p\<close>, the pointer \<^verbatim>\<open>end\<close> itself is \<open>[]\<close>, and the offset of
  \<open>p\<close> in the image is \<open>length image - length p\<close>. A read at or beyond the end of the
  buffer, arithmetic on a null pointer and an invalid iterator range have no defined result
  in C++; the model returns \<open>Undefined\<close> for them.

  The three exceptions the sources throw are \<open>NotValidPNG\<close> (the signature check of
  \<^verbatim>\<open>Image::Image\<close>), \<open>CorruptChunk\<close> (\<^verbatim>\<open>"Encountered corrupt chunk"\<close> in the
  \<^verbatim>\<open>TextChunk\<close> constructor) and \<open>LodePNGError\<close> (\<^verbatim>\<open>check_error\<close> on a LodePNG error code).
  Failure to allocate memory and file input/output are outside the model.
\<close>

type_synonym byte = "8 word"
type_synonym bytes = "byte list"

datatype error = NotValidPNG | CorruptChunk | LodePNGError | Undefined

definition bytes_of :: "string \<Rightarrow> bytes" where
  "bytes_of s = map of_char s"

text \<open>\<^verbatim>\<open>std::memchr(s, ch, n)\<close>: the index of the first \<open>ch\<close> among the first \<open>n\<close> bytes at
  \<open>s\<close>, or the null pointer (\<open>None\<close>). The search reads byte after byte and stops at the first
  match, so it is defined when a match lies inside the buffer even if \<open>n\<close> reaches beyond it,
  and undefined when it would run off the buffer without a match.\<close>

definition memchr :: "bytes \<Rightarrow> byte \<Rightarrow> nat \<Rightarrow> error + nat option" where
  "memchr s ch n =
     (let i = length (takeWhile (\<lambda>b. b \<noteq> ch) (take n s))
      in if i < min n (length s) then Inr (Some i)
         else if n \<le> length s then Inr None
         else Inl Undefined)"

text \<open>\<^verbatim>\<open>std::memcmp(a, s, n) == 0\<close> for an \<open>n\<close>-byte constant \<open>a\<close>: both objects must have
  \<open>n\<close> readable bytes.\<close>

definition memcmp_eq :: "bytes \<Rightarrow> bytes \<Rightarrow> error + bool" where
  "memcmp_eq a s = (if length s < length a then Inl Undefined else Inr (take (length a) s = a))"


section \<open>The LodePNG functions the sources call\<close>

text \<open>
  \<^verbatim>\<open>lodepng.h\<close> is included by \<^verbatim>\<open>image.h\<close> but is not among the sources. The definitions of
  this section give the chunk functions the behaviour that the wire format of the
  specification fixes (4-byte big-endian length, 4-byte type code, payload, CRC-32 over
  type code and payload) and that the call sites in \<^verbatim>\<open>image.h\<close> rely on: every one of them
  returns a pointer or a value and has no error path.
\<close>

text \<open>Modelled from the spec: \<^verbatim>\<open>lodepng_read32bitInt\<close> and \<^verbatim>\<open>lodepng_set32bitInt\<close>, the
  big-endian 32-bit integers of the wire format. The caller must have four readable bytes.\<close>

definition lodepng_read32bitInt :: "bytes \<Rightarrow> 32 word" where
  "lodepng_read32bitInt b =
     push_bit 24 (ucast (b ! 0)) OR push_bit 16 (ucast (b ! 1))
       OR push_bit 8 (ucast (b ! 2)) OR ucast (b ! 3)"

definition lodepng_set32bitInt :: "32 word \<Rightarrow> bytes" where
  "lodepng_set32bitInt v =
     [ucast (drop_bit 24 v), ucast (drop_bit 16 v), ucast (drop_bit 8 v), ucast v]"

text \<open>Modelled from the spec: the CRC-32 of the PNG wire format (\<^verbatim>\<open>lodepng_crc32\<close>),
  bit by bit with the reflected polynomial \<open>0xEDB88320\<close>.\<close>

definition crc32_shift :: "32 word \<Rightarrow> 32 word" where
  "crc32_shift c = (if bit c 0 then drop_bit 1 c XOR 0xEDB88320 else drop_bit 1 c)"

definition crc32_update :: "32 word \<Rightarrow> byte \<Rightarrow> 32 word" where
  "crc32_update c b = (crc32_shift ^^ 8) (c XOR ucast b)"

definition lodepng_crc32 :: "bytes \<Rightarrow> 32 word" where
  "lodepng_crc32 data = NOT (foldl crc32_update 0xFFFFFFFF data)"

text \<open>Modelled from the spec: \<^verbatim>\<open>lodepng_chunk_length\<close>, the big-endian length field at the
  start of a chunk. The caller must have four readable bytes.\<close>

definition lodepng_chunk_length :: "bytes \<Rightarrow> 32 word" where
  "lodepng_chunk_length chunk = lodepng_read32bitInt chunk"

text \<open>Modelled from the spec: \<^verbatim>\<open>lodepng_chunk_data_const\<close>, the pointer \<^verbatim>\<open>&chunk[8]\<close>.\<close>

definition lodepng_chunk_data_const :: "bytes \<Rightarrow> bytes" where
  "lodepng_chunk_data_const chunk = drop 8 chunk"

text \<open>Modelled from the spec: the comparison in \<^verbatim>\<open>lodepng_chunk_type_equals\<close>, byte after
  byte up to the first difference; reading a byte that is not there is undefined.\<close>

fun bytes_match :: "bytes \<Rightarrow> bytes \<Rightarrow> error + bool" where
  "bytes_match s [] = Inr True"
| "bytes_match [] (t # ts) = Inl Undefined"
| "bytes_match (b # bs) (t # ts) = (if b = t then bytes_match bs ts else Inr False)"

text \<open>Modelled from the spec: \<^verbatim>\<open>lodepng_chunk_type_equals\<close>, whether the type code at
  \<^verbatim>\<open>chunk[4..7]\<close> is the given 4-character code.\<close>

definition lodepng_chunk_type_equals :: "bytes \<Rightarrow> bytes \<Rightarrow> error + bool" where
  "lodepng_chunk_type_equals chunk ty =
     (if length ty \<noteq> 4 then Inr False else bytes_match (drop 4 chunk) ty)"

definition PNG_SIGNATURE :: bytes where
  "PNG_SIGNATURE = [137, 80, 78, 71, 13, 10, 26, 10]"

text \<open>Modelled from the spec: \<^verbatim>\<open>lodepng_chunk_next(chunk, end)\<close>, the pointer to the chunk
  after \<open>chunk\<close>: \<open>length + 12\<close> bytes further (a 64-bit \<^verbatim>\<open>size_t\<close>, which cannot overflow).
  The call sites take a pointer from it in every case, so where no chunk fits (fewer than 12
  bytes left, or a length field that claims more than what is left) the result is \<^verbatim>\<open>end\<close>,
  and a pointer at a PNG signature steps over its 8 bytes. The theorems below depend on it
  only where it steps over a well-formed chunk or over data that stays the same.\<close>

definition lodepng_chunk_next :: "bytes \<Rightarrow> bytes" where
  "lodepng_chunk_next chunk =
     (if length chunk < 12 then []
      else if take 8 chunk = PNG_SIGNATURE then drop 8 chunk
      else let total_chunk_length = unat (lodepng_chunk_length chunk) + 12
           in if total_chunk_length > length chunk then []
              else drop total_chunk_length chunk)"

text \<open>Modelled from the spec: \<^verbatim>\<open>lodepng_chunk_find_const(chunk, end, type)\<close>, the first chunk
  from \<open>chunk\<close> on with the given type code, or the null pointer (\<open>None\<close>) when fewer than 12
  bytes are left.\<close>

function lodepng_chunk_find_const :: "bytes \<Rightarrow> bytes \<Rightarrow> bytes option" where
  "lodepng_chunk_find_const chunk ty =
     (if length chunk < 12 then None
      else if lodepng_chunk_type_equals chunk ty = Inr True then Some chunk
      else lodepng_chunk_find_const (lodepng_chunk_next chunk) ty)"
  by pat_completeness auto
termination
  by (relation "measure (\<lambda>(chunk, ty). length chunk)")
     (auto simp add: lodepng_chunk_next_def Let_def)

text \<open>Modelled from the spec: \<^verbatim>\<open>lodepng_chunk_create\<close>, the wire form of a chunk with the
  given type code and payload: length, type code, payload, CRC-32. The length field has 32
  bits (the length parameter is an \<^verbatim>\<open>unsigned\<close>): the size of the payload is taken modulo
  \<open>2 ^ 32\<close> and that many bytes are copied. The theorems below assume a payload that fits.\<close>

definition lodepng_chunk_create :: "bytes \<Rightarrow> bytes \<Rightarrow> bytes" where
  "lodepng_chunk_create data ty =
     (let len = (word_of_nat (length data) :: 32 word);
          payload = take (unat len) data
      in lodepng_set32bitInt len @ take 4 ty @ payload
           @ lodepng_set32bitInt (lodepng_crc32 (take 4 ty @ payload)))"

text \<open>The zlib codec of LodePNG (\<^verbatim>\<open>lodepng_zlib_compress\<close> with the settings of
  \<^verbatim>\<open>best_compression\<close>, \<^verbatim>\<open>lodepng_zlib_decompress\<close> with default settings) is a parameter
  of the model: a compressor, and a decompressor that may reject its input.\<close>

record zlib =
  lodepng_zlib_compress :: "bytes \<Rightarrow> bytes"
  lodepng_zlib_decompress :: "bytes \<Rightarrow> bytes option"


section \<open>\<^verbatim>\<open>namespace ImageImplementation\<close> (image.h)\<close>

definition decompress :: "zlib \<Rightarrow> bytes \<Rightarrow> error + bytes" where
  "decompress z compressed =
     (case lodepng_zlib_decompress z compressed of
        None \<Rightarrow> Inl LodePNGError
      | Some decompressed \<Rightarrow> Inr decompressed)"

text \<open>\<^verbatim>\<open>compress\<close> and \<^verbatim>\<open>chunk_encode\<close> throw only when LodePNG cannot allocate memory.\<close>

definition compress :: "zlib \<Rightarrow> bytes \<Rightarrow> bytes" where
  "compress z data = lodepng_zlib_compress z data"

definition chunk_encode :: "bytes \<Rightarrow> bytes \<Rightarrow> bytes" where
  "chunk_encode data ty = lodepng_chunk_create data ty"


section \<open>\<^verbatim>\<open>struct TextChunk\<close> (image.h)\<close>

record TextChunk =
  key :: bytes
  "value" :: bytes

definition TextChunk_type :: bytes where
  "TextChunk_type = bytes_of ''zTXt''"

text \<open>\<^verbatim>\<open>TextChunk(const unsigned char *chunk)\<close>. \<^verbatim>\<open>length\<close> is a 32-bit \<^verbatim>\<open>unsigned\<close>, so
  \<^verbatim>\<open>length - 1\<close> wraps to \<open>2 ^ 32 - 1\<close> when the length field is 0. \<^verbatim>\<open>compressed_length\<close> is
  \<^verbatim>\<open>length\<close> minus a \<^verbatim>\<open>ptrdiff_t\<close>, cast to \<^verbatim>\<open>size_t\<close>: a negative difference becomes a size
  beyond any buffer, and a span that is not inside the buffer is undefined.\<close>

definition TextChunk_decode :: "zlib \<Rightarrow> bytes \<Rightarrow> error + TextChunk" where
  "TextChunk_decode z chunk =
     (if length chunk < 8 then Inl Undefined
      else
        let len = lodepng_chunk_length chunk;
            data = lodepng_chunk_data_const chunk
        in case memchr data 0 (unat (len - 1)) of
             Inl e \<Rightarrow> Inl e
           | Inr None \<Rightarrow> Inl CorruptChunk
           | Inr (Some end_of_key) \<Rightarrow>
               let compression_method = end_of_key + 1
               in if length data \<le> compression_method then Inl Undefined
                  else if data ! compression_method \<noteq> 0 then Inl CorruptChunk
                  else
                    let compressed = compression_method + 1
                    in if unat len < compressed \<or> length data < unat len then Inl Undefined
                       else
                         let compressed_length = unat len - compressed
                         in case decompress z (take compressed_length (drop compressed data)) of
                              Inl e \<Rightarrow> Inl e
                            | Inr decompressed \<Rightarrow>
                                Inr \<lparr>key = take end_of_key data, value = decompressed\<rparr>)"

definition encode_data :: "zlib \<Rightarrow> TextChunk \<Rightarrow> bytes" where
  "encode_data z c = key c @ [0, 0] @ compress z (value c)"

definition TextChunk_encode :: "zlib \<Rightarrow> TextChunk \<Rightarrow> bytes" where
  "TextChunk_encode z c = chunk_encode (encode_data z c) TextChunk_type"

definition TextChunk_is_valid :: "bytes \<Rightarrow> error + bool" where
  "TextChunk_is_valid chunk = lodepng_chunk_type_equals chunk TextChunk_type"


section \<open>\<^verbatim>\<open>struct SubFile\<close> and \<^verbatim>\<open>struct FuseChunk\<close> (subfileimage.h)\<close>

text \<open>A \<^verbatim>\<open>path\<close> is modelled by its UTF-8 bytes (\<^verbatim>\<open>name.u8string()\<close>).\<close>

record SubFile =
  name :: bytes
  contents :: bytes

text \<open>\<^verbatim>\<open>SubFile::from_merged\<close>. The result of \<^verbatim>\<open>memchr\<close> is used without a test: when it is
  the null pointer, the range \<^verbatim>\<open>{data.data(), end_of_filename}\<close> and the pointer
  \<^verbatim>\<open>end_of_filename + 1\<close> are undefined.\<close>

definition from_merged :: "bytes \<Rightarrow> error + SubFile" where
  "from_merged data =
     (case memchr data 0 (length data) of
        Inl e \<Rightarrow> Inl e
      | Inr None \<Rightarrow> Inl Undefined
      | Inr (Some end_of_filename) \<Rightarrow>
          Inr \<lparr>name = take end_of_filename data, contents = drop (end_of_filename + 1) data\<rparr>)"

definition merged :: "SubFile \<Rightarrow> bytes" where
  "merged f = name f @ [0] @ contents f"

definition FuseChunk_key :: bytes where
  "FuseChunk_key = bytes_of ''PNGFuse''"

definition FuseChunk_type :: bytes where
  "FuseChunk_type = bytes_of ''fuSe''"

definition FuseChunk_encode :: "zlib \<Rightarrow> TextChunk \<Rightarrow> bytes" where
  "FuseChunk_encode z c = chunk_encode (encode_data z c) FuseChunk_type"

text \<open>\<^verbatim>\<open>FuseChunk(SubFile &&data)\<close>.\<close>

definition FuseChunk_of_SubFile :: "SubFile \<Rightarrow> TextChunk" where
  "FuseChunk_of_SubFile data = \<lparr>key = FuseChunk_key, value = merged data\<rparr>"

text \<open>\<^verbatim>\<open>FuseChunk(const unsigned char *chunk) : TextChunk(chunk) {}\<close>.\<close>

definition FuseChunk_decode :: "zlib \<Rightarrow> bytes \<Rightarrow> error + TextChunk" where
  "FuseChunk_decode z chunk = TextChunk_decode z chunk"


definition FuseChunk_is_valid :: "bytes \<Rightarrow> error + bool" where
  "FuseChunk_is_valid chunk =
     (case lodepng_chunk_type_equals chunk FuseChunk_type of
        Inl e \<Rightarrow> Inl e
      | Inr False \<Rightarrow> Inr False
      | Inr True \<Rightarrow> memcmp_eq FuseChunk_key (lodepng_chunk_data_const chunk))"


section \<open>\<^verbatim>\<open>struct Image\<close> (image.h)\<close>

text \<open>The template parameter \<^verbatim>\<open>ChunkT\<close>: \<^verbatim>\<open>ChunkT::encode()\<close>, \<^verbatim>\<open>ChunkT::is_valid()\<close> and the
  constructor \<^verbatim>\<open>ChunkT::ChunkT(const unsigned char *)\<close>.\<close>

record 'c ChunkT =
  encode :: "'c \<Rightarrow> bytes"
  is_valid :: "bytes \<Rightarrow> error + bool"
  construct :: "bytes \<Rightarrow> error + 'c"

definition TextChunk_T :: "zlib \<Rightarrow> TextChunk ChunkT" where
  "TextChunk_T z =
     \<lparr>encode = TextChunk_encode z, is_valid = TextChunk_is_valid, construct = TextChunk_decode z\<rparr>"

definition FuseChunk_T :: "zlib \<Rightarrow> TextChunk ChunkT" where
  "FuseChunk_T z =
     \<lparr>encode = FuseChunk_encode z, is_valid = FuseChunk_is_valid, construct = FuseChunk_decode z\<rparr>"

record Image =
  image :: bytes
  idat_end_pos :: nat

definition IDAT :: bytes where
  "IDAT = bytes_of ''IDAT''"

text \<open>The \<^verbatim>\<open>while\<close> loop of \<^verbatim>\<open>find_idat_end\<close>.\<close>

function find_idat_end_loop :: "bytes \<Rightarrow> error + bytes" where
  "find_idat_end_loop chunk =
     (case lodepng_chunk_type_equals chunk IDAT of
        Inl e \<Rightarrow> Inl e
      | Inr b \<Rightarrow> if b then find_idat_end_loop (lodepng_chunk_next chunk) else Inr chunk)"
  by pat_completeness auto
termination
proof (relation "measure length")
  show "wf (measure length)" by simp
next
  fix chunk :: bytes and b :: bool
  assume "lodepng_chunk_type_equals chunk IDAT = Inr b" and b
  then have "chunk \<noteq> []"
    by (auto simp add: lodepng_chunk_type_equals_def IDAT_def bytes_of_def)
  then show "(lodepng_chunk_next chunk, chunk) \<in> measure length"
    by (simp add: lodepng_chunk_next_def Let_def)
qed

text \<open>\<^verbatim>\<open>find_idat_end\<close>. When no \<^verbatim>\<open>IDAT\<close> chunk is found, \<^verbatim>\<open>lodepng_chunk_find_const\<close> returns
  the null pointer, which the loop then reads.\<close>

definition find_idat_end :: "bytes \<Rightarrow> error + nat" where
  "find_idat_end im =
     (case lodepng_chunk_find_const (drop 8 im) IDAT of
        None \<Rightarrow> Inl Undefined
      | Some chunk \<Rightarrow>
          (case find_idat_end_loop chunk of
             Inl e \<Rightarrow> Inl e
           | Inr chunk' \<Rightarrow> Inr (length im - length chunk')))"

text \<open>\<^verbatim>\<open>Image(const path &file)\<close>, applied to the bytes read from the file.\<close>

definition Image_load :: "bytes \<Rightarrow> error + Image" where
  "Image_load file =
     (if length file < 8 \<or> take 8 file \<noteq> PNG_SIGNATURE then Inl NotValidPNG
      else case find_idat_end file of
             Inl e \<Rightarrow> Inl e
           | Inr pos \<Rightarrow> Inr \<lparr>image = file, idat_end_pos = pos\<rparr>)"

text \<open>\<^verbatim>\<open>image.insert(std::next(image.begin(), pos), first, last)\<close>: an iterator beyond
  \<^verbatim>\<open>image.end()\<close> is undefined.\<close>

definition vector_insert :: "nat \<Rightarrow> bytes \<Rightarrow> bytes \<Rightarrow> error + bytes" where
  "vector_insert pos encoded im =
     (if length im < pos then Inl Undefined else Inr (take pos im @ encoded @ drop pos im))"

text \<open>\<^verbatim>\<open>add_chunk(const ChunkT &chunk)\<close>.\<close>

definition add_chunk :: "'c ChunkT \<Rightarrow> Image \<Rightarrow> 'c \<Rightarrow> error + Image" where
  "add_chunk T img chunk =
     (let encoded_chunk = encode T chunk
      in case vector_insert (idat_end_pos img) encoded_chunk (image img) of
           Inl e \<Rightarrow> Inl e
         | Inr im \<Rightarrow> Inr (img\<lparr>image := im\<rparr>))"

text \<open>The last loop of \<^verbatim>\<open>add_chunk(const std::vector<ChunkT> &chunks)\<close>: each element of the
  list it is given is inserted at the same offset.\<close>

fun insert_each :: "nat \<Rightarrow> bytes list \<Rightarrow> bytes \<Rightarrow> error + bytes" where
  "insert_each pos [] im = Inr im"
| "insert_each pos (encoded_chunk # rest) im =
     (case vector_insert pos encoded_chunk im of
        Inl e \<Rightarrow> Inl e
      | Inr im' \<Rightarrow> insert_each pos rest im')"

text \<open>\<^verbatim>\<open>add_chunk(const std::vector<ChunkT> &chunks)\<close>. The futures are joined in the order of
  \<open>chunks\<close>, and the encoded chunks are inserted through \<^verbatim>\<open>std::ranges::reverse_view\<close>.\<close>

definition add_chunks :: "'c ChunkT \<Rightarrow> Image \<Rightarrow> 'c list \<Rightarrow> error + Image" where
  "add_chunks T img chunks =
     (let encoded = map (encode T) chunks
      in case insert_each (idat_end_pos img) (rev encoded) (image img) of
           Inl e \<Rightarrow> Inl e
         | Inr im \<Rightarrow> Inr (img\<lparr>image := im\<rparr>))"

text \<open>The loop of \<^verbatim>\<open>get_chunks\<close>, from the pointer \<open>chunk\<close> on. An exception of the
  \<^verbatim>\<open>ChunkT\<close> constructor leaves the loop.\<close>

function get_chunks_loop :: "'c ChunkT \<Rightarrow> bytes \<Rightarrow> error + 'c list" where
  "get_chunks_loop T chunk =
     (if chunk = [] then Inr []
      else case is_valid T chunk of
             Inl e \<Rightarrow> Inl e
           | Inr v \<Rightarrow>
               if v then
                 (case construct T chunk of
                    Inl e \<Rightarrow> Inl e
                  | Inr c \<Rightarrow>
                      (case get_chunks_loop T (lodepng_chunk_next chunk) of
                         Inl e \<Rightarrow> Inl e
                       | Inr chunks \<Rightarrow> Inr (c # chunks)))
               else get_chunks_loop T (lodepng_chunk_next chunk))"
  by pat_completeness auto
termination
  by (relation "measure (\<lambda>(T, chunk). length chunk)")
     (auto simp add: lodepng_chunk_next_def Let_def)

text \<open>\<^verbatim>\<open>get_chunks\<close>. \<^verbatim>\<open>begin + 8\<close> must not lie beyond the end of the buffer.\<close>

definition get_chunks :: "'c ChunkT \<Rightarrow> Image \<Rightarrow> error + 'c list" where
  "get_chunks T img =
     (if length (image img) < 8 then Inl Undefined
      else get_chunks_loop T (drop 8 (image img)))"

text \<open>The first loop of \<^verbatim>\<open>clear_chunks\<close>, from the pointer \<open>chunk\<close> on, in an image of \<open>n\<close>
  bytes; \<^verbatim>\<open>std::distance(begin, chunk)\<close> is \<open>n - length chunk\<close>. It returns \<^verbatim>\<open>ranges\<close> and
  \<^verbatim>\<open>chunk_count\<close>; a range that is still open when the loop ends is not recorded.\<close>

function find_ranges ::
  "'c ChunkT \<Rightarrow> nat \<Rightarrow> bytes \<Rightarrow> nat option \<Rightarrow> (nat \<times> nat) list \<Rightarrow> nat
     \<Rightarrow> error + (nat \<times> nat) list \<times> nat"
where
  "find_ranges T n chunk range_begin ranges chunk_count =
     (if chunk = [] then Inr (ranges, chunk_count)
      else case is_valid T chunk of
             Inl e \<Rightarrow> Inl e
           | Inr v \<Rightarrow>
               if v then
                 find_ranges T n (lodepng_chunk_next chunk)
                   (case range_begin of None \<Rightarrow> Some (n - length chunk) | Some b \<Rightarrow> Some b)
                   ranges (chunk_count + 1)
               else
                 (case range_begin of
                    Some b \<Rightarrow>
                      find_ranges T n (lodepng_chunk_next chunk) None
                        (ranges @ [(b, n - length chunk)]) chunk_count
                  | None \<Rightarrow>
                      find_ranges T n (lodepng_chunk_next chunk) None ranges chunk_count))"
  by pat_completeness auto
termination
  by (relation "measure (\<lambda>(T, n, chunk, range_begin, ranges, chunk_count). length chunk)")
     (auto simp add: lodepng_chunk_next_def Let_def)

text \<open>\<^verbatim>\<open>image.erase(std::next(iterator_begin, b), std::next(iterator_begin, e))\<close>.\<close>

definition vector_erase :: "bytes \<Rightarrow> nat \<times> nat \<Rightarrow> bytes" where
  "vector_erase im r = take (fst r) im @ drop (snd r) im"

text \<open>\<^verbatim>\<open>clear_chunks\<close>: the number of chunks counted, and the image after the recorded ranges
  have been erased from the last one to the first.\<close>

definition clear_chunks :: "'c ChunkT \<Rightarrow> Image \<Rightarrow> error + nat \<times> Image" where
  "clear_chunks T img =
     (if length (image img) < 8 then Inl Undefined
      else case find_ranges T (length (image img)) (drop 8 (image img)) None [] 0 of
             Inl e \<Rightarrow> Inl e
           | Inr (ranges, chunk_count) \<Rightarrow>
               Inr (chunk_count, img\<lparr>image := foldl vector_erase (image img) (rev ranges)\<rparr>))"


section \<open>A zlib codec with stored blocks\<close>

text \<open>
  One codec that the parameter \<open>zlib\<close> can be: zlib streams (RFC 1950) whose deflate data
  consists of stored blocks only (RFC 1951, block type 0). The compressor writes the header
  \<open>78 01\<close>, stored blocks of at most 65535 bytes and the Adler-32 checksum of the data; the
  decompressor accepts such streams and rejects everything else, streams with compressed
  blocks included. It serves to evaluate the model on concrete chunks.
\<close>

definition adler32 :: "bytes \<Rightarrow> 32 word" where
  "adler32 data =
     (let (s1, s2) =
            foldl (\<lambda>(s1, s2) b. let s1' = (s1 + unat b) mod 65521 in (s1', (s2 + s1') mod 65521))
              (1, 0) data
      in word_of_nat (s2 * 65536 + s1))"

definition le16 :: "nat \<Rightarrow> bytes" where
  "le16 n = [word_of_nat (n mod 256), word_of_nat (n div 256 mod 256)]"

function stored_blocks :: "bytes \<Rightarrow> bytes" where
  "stored_blocks data =
     (if length data \<le> 65535
      then [1] @ le16 (length data) @ le16 (65535 - length data) @ data
      else [0] @ le16 65535 @ le16 0 @ take 65535 data @ stored_blocks (drop 65535 data))"
  by pat_completeness auto
termination
  by (relation "measure length") auto

definition stored_compress :: "bytes \<Rightarrow> bytes" where
  "stored_compress data = [0x78, 0x01] @ stored_blocks data @ lodepng_set32bitInt (adler32 data)"

text \<open>Inflating stored blocks: the output and the input that is left after the final
  block.\<close>

function stored_inflate :: "bytes \<Rightarrow> (bytes \<times> bytes) option" where
  "stored_inflate inp =
     (case inp of
        h # l0 # l1 # n0 # n1 # rest \<Rightarrow>
          (let len = unat l0 + 256 * unat l1; nlen = unat n0 + 256 * unat n1
           in if h AND 6 \<noteq> 0 \<or> len + nlen \<noteq> 65535 \<or> length rest < len then None
              else if bit h 0 then Some (take len rest, drop len rest)
              else (case stored_inflate (drop len rest) of
                      None \<Rightarrow> None
                    | Some (out, left) \<Rightarrow> Some (take len rest @ out, left)))
      | _ \<Rightarrow> None)"
  by pat_completeness auto
termination
  by (relation "measure length") auto

definition stored_decompress :: "bytes \<Rightarrow> bytes option" where
  "stored_decompress inp =
     (if length inp < 2 then None
      else
        let cmf = inp ! 0; flg = inp ! 1
        in if (unat cmf * 256 + unat flg) mod 31 \<noteq> 0 then None
           else if cmf AND 15 \<noteq> 8 \<or> 7 < unat (drop_bit 4 cmf) then None
           else if bit flg 5 then None
           else (case stored_inflate (drop 2 inp) of
                   None \<Rightarrow> None
                 | Some (out, left) \<Rightarrow>
                     if left = lodepng_set32bitInt (adler32 out) then Some out else None))"

definition stored_zlib :: zlib where
  "stored_zlib =
     \<lparr>lodepng_zlib_compress = stored_compress, lodepng_zlib_decompress = stored_decompress\<rparr>"


section \<open>Well-formed chunks\<close>

text \<open>The bytes of one chunk: 12 bytes of header and CRC around a payload of the size that
  the length field gives. (The bytes of a chunk never start with the PNG signature, whose
  last four bytes are no type code.)\<close>

definition well_formed_chunk :: "bytes \<Rightarrow> bool" where
  "well_formed_chunk c \<longleftrightarrow>
     length c = unat (lodepng_chunk_length c) + 12 \<and> take 8 c \<noteq> PNG_SIGNATURE"

text \<open>What \<^verbatim>\<open>lodepng_chunk_next\<close> steps over when it does not return \<^verbatim>\<open>end\<close>: a
  well-formed chunk, or the 8 bytes of a PNG signature.\<close>

definition chunk_stride :: "bytes \<Rightarrow> bool" where
  "chunk_stride x \<longleftrightarrow> well_formed_chunk x \<or> x = PNG_SIGNATURE"



text \<open>A chunk that \<^verbatim>\<open>ChunkT::is_valid\<close> accepts, and a chunk on which \<^verbatim>\<open>is_valid\<close> gives
  the same answer whatever bytes follow it in the buffer. (\<^verbatim>\<open>FuseChunk::is_valid\<close> compares 7
  payload bytes without looking at the length field, so for a \<^verbatim>\<open>fuSe\<close> chunk with fewer than
  3 payload bytes it reads the chunk that follows.)\<close>

definition matching :: "'c ChunkT \<Rightarrow> bytes \<Rightarrow> bool" where
  "matching T x \<longleftrightarrow> is_valid T x = Inr True"

definition decided :: "'c ChunkT \<Rightarrow> bytes \<Rightarrow> bool" where
  "decided T x \<longleftrightarrow> (\<forall>r. is_valid T (x @ r) = Inr (matching T x))"

text \<open>The ranges that \<^verbatim>\<open>clear_chunks\<close> records for a list of chunks that starts at offset
  \<open>pos\<close>: every run of matching chunks that a non-matching chunk ends.\<close>

fun chunk_ranges :: "'c ChunkT \<Rightarrow> nat \<Rightarrow> nat option \<Rightarrow> bytes list \<Rightarrow> (nat \<times> nat) list" where
  "chunk_ranges T pos range_begin [] = []"
| "chunk_ranges T pos range_begin (x # xs) =
     (if matching T x then
        chunk_ranges T (pos + length x)
          (case range_begin of None \<Rightarrow> Some pos | Some b \<Rightarrow> Some b) xs
      else
        (case range_begin of Some b \<Rightarrow> [(b, pos)] | None \<Rightarrow> [])
          @ chunk_ranges T (pos + length x) None xs)"


section \<open>Example data\<close>

text \<open>A PNG stream of one grey pixel: the chunks \<^verbatim>\<open>IHDR\<close>, \<^verbatim>\<open>IDAT\<close> (a zlib stream with
  one stored block) and \<^verbatim>\<open>IEND\<close>, each with its CRC-32.\<close>

definition example_IHDR :: bytes where
  "example_IHDR =
     [0, 0, 0, 13, 73, 72, 68, 82, 0, 0, 0, 1, 0, 0, 0, 1, 8, 0, 0, 0, 0, 58, 126, 155, 85]"

definition example_IDAT :: bytes where
  "example_IDAT =
     [0, 0, 0, 13, 73, 68, 65, 84, 120, 1, 1, 2, 0, 253, 255, 0, 0, 0, 2, 0, 1, 126, 5, 13, 210]"

definition example_IEND :: bytes where
  "example_IEND = [0, 0, 0, 0, 73, 69, 78, 68, 174, 66, 96, 130]"

definition example_png :: bytes where
  "example_png = PNG_SIGNATURE @ example_IHDR @ example_IDAT @ example_IEND"

text \<open>The \<^verbatim>\<open>fuSe\<close> chunk of the file \<^verbatim>\<open>a.txt\<close> with content \<^verbatim>\<open>hello\<close>: the keyword, two NUL
  bytes and the stored-block zlib stream of \<^verbatim>\<open>a.txt\<close>, NUL, \<^verbatim>\<open>hello\<close>.\<close>

definition example_fuSe :: bytes where
  "example_fuSe =
     [0, 0, 0, 31, 102, 117, 83, 101, 80, 78, 71, 70, 117, 115, 101, 0, 0,
      120, 1, 1, 11, 0, 244, 255, 97, 46, 116, 120, 116, 0, 104, 101, 108, 108, 111, 23, 41, 4, 4,
      70, 17, 2, 210]"


text \<open>A \<^verbatim>\<open>zTXt\<close> chunk with an empty payload.\<close>

definition example_empty_zTXt :: bytes where
  "example_empty_zTXt = [0, 0, 0, 0, 122, 84, 88, 116, 107, 121, 123, 241]"




declare lodepng_chunk_find_const.simps [simp del]
declare find_idat_end_loop.simps [simp del]
declare get_chunks_loop.simps [simp del]
declare find_ranges.simps [simp del]
declare stored_blocks.simps [simp del]
declare stored_inflate.simps [simp del]


section \<open>Basic facts\<close>

lemma takeWhile_until:
  "ch \<notin> set k \<Longrightarrow> takeWhile (\<lambda>b. b \<noteq> ch) (k @ ch # rest) = k"
  by (induction k) auto

lemma takeWhile_all:
  "ch \<notin> set s \<Longrightarrow> takeWhile (\<lambda>b. b \<noteq> ch) s = s"
  by (induction s) auto

lemma memchr_first:
  assumes "ch \<notin> set k" and "length k < n"
  shows "memchr (k @ ch # rest) ch n = Inr (Some (length k))"
proof -
  obtain m where n: "n = Suc (length k + m)"
    using assms(2) less_imp_Suc_add by blast
  have "take n (k @ ch # rest) = k @ ch # take m rest"
    by (simp add: n)
  then show ?thesis
    using assms(1) by (simp add: memchr_def Let_def takeWhile_until n)
qed

lemma memchr_absent:
  "ch \<notin> set s \<Longrightarrow> memchr s ch (length s) = Inr None"
  by (simp add: memchr_def Let_def takeWhile_all)


section \<open>Big-endian integers and encoded chunks\<close>

lemma length_set32bitInt [simp]: "length (lodepng_set32bitInt v) = 4"
  by (simp add: lodepng_set32bitInt_def)


lemma read32bitInt_append:
  assumes "4 \<le> length c"
  shows "lodepng_read32bitInt (c @ rest) = lodepng_read32bitInt c"
proof -
  have "(c @ rest) ! i = c ! i" if "i < 4" for i
    using that assms by (simp add: nth_append)
  then show ?thesis
    unfolding lodepng_read32bitInt_def by simp
qed





section \<open>Insertion\<close>

lemma insert_each_eq:
  "pos \<le> length im \<Longrightarrow>
     insert_each pos es im = Inr (take pos im @ concat (rev es) @ drop pos im)"
proof (induction es arbitrary: im)
  case Nil
  then show ?case by simp
next
  case (Cons e es)
  let ?im = "take pos im @ e @ drop pos im"
  have "pos \<le> length ?im"
    using Cons.prems by simp
  from Cons.IH [OF this] show ?case
    using Cons.prems by (simp add: vector_insert_def)
qed

lemma insert_each_Undefined:
  "length im < pos \<Longrightarrow> es \<noteq> [] \<Longrightarrow> insert_each pos es im = Inl Undefined"
  by (cases es) (simp_all add: vector_insert_def)

lemma add_chunk_Inr:
  "add_chunk T img chunk = Inr img' \<longleftrightarrow>
     idat_end_pos img \<le> length (image img) \<and>
     img' = img\<lparr>image := take (idat_end_pos img) (image img) @ encode T chunk
                              @ drop (idat_end_pos img) (image img)\<rparr>"
  by (auto simp add: add_chunk_def vector_insert_def Let_def)

lemma add_chunks_Inr:
  assumes "idat_end_pos img \<le> length (image img)"
  shows "add_chunks T img chunks =
     Inr (img\<lparr>image := take (idat_end_pos img) (image img) @ concat (map (encode T) chunks)
                              @ drop (idat_end_pos img) (image img)\<rparr>)"
  using insert_each_eq [OF assms, of "rev (map (encode T) chunks)"]
  by (simp add: add_chunks_def Let_def rev_map)

lemma add_chunks_prefix:
  assumes "add_chunks T img chunks = Inr img'"
  shows "take (idat_end_pos img) (image img') = take (idat_end_pos img) (image img)
         \<and> idat_end_pos img' = idat_end_pos img"
proof (cases "idat_end_pos img \<le> length (image img)")
  case True
  from add_chunks_Inr [OF True, of T chunks] assms True show ?thesis
    by auto
next
  case False
  show ?thesis
  proof (cases "chunks = []")
    case True
    from assms show ?thesis
      unfolding True by (auto simp add: add_chunks_def)
  next
    case ne: False
    have "insert_each (idat_end_pos img) (rev (map (encode T) chunks)) (image img) = Inl Undefined"
      using False ne by (intro insert_each_Undefined) simp_all
    with assms show ?thesis
      by (simp add: add_chunks_def)
  qed
qed

lemma clear_chunks_idat_end_pos:
  "clear_chunks T img = Inr (n, img') \<Longrightarrow> idat_end_pos img' = idat_end_pos img"
  by (auto simp add: clear_chunks_def split: if_splits sum.splits)


section \<open>Walking the chunk stream\<close>

lemma bytes_match_append:
  "length t \<le> length s \<Longrightarrow> bytes_match (s @ r) t = Inr (take (length t) s = t)"
  by (induction s t rule: bytes_match.induct) auto

lemma chunk_type_equals_append:
  assumes "8 \<le> length c" and "length ty = 4"
  shows "lodepng_chunk_type_equals (c @ r) ty = Inr (take 4 (drop 4 c) = ty)"
  using assms bytes_match_append [of ty "drop 4 c" r]
  by (simp add: lodepng_chunk_type_equals_def)


lemma chunk_length_append:
  "4 \<le> length c \<Longrightarrow> lodepng_chunk_length (c @ r) = lodepng_chunk_length c"
  by (simp add: lodepng_chunk_length_def read32bitInt_append)

lemma chunk_length_take:
  "4 \<le> n \<Longrightarrow> 4 \<le> length c \<Longrightarrow> lodepng_chunk_length (take n c) = lodepng_chunk_length c"
  using chunk_length_append [of "take n c" "drop n c"] by simp

lemma well_formed_chunk_length: "well_formed_chunk x \<Longrightarrow> 12 \<le> length x"
  by (simp add: well_formed_chunk_def)


lemma chunk_next_well_formed:
  assumes "well_formed_chunk x"
  shows "lodepng_chunk_next (x @ r) = r"
proof -
  have l: "12 \<le> length x"
    using assms by (rule well_formed_chunk_length)
  then have "lodepng_chunk_length (x @ r) = lodepng_chunk_length x"
    by (intro chunk_length_append) simp
  moreover have "take 8 (x @ r) = take 8 x"
    using l by simp
  ultimately show ?thesis
    using assms l by (simp add: lodepng_chunk_next_def well_formed_chunk_def Let_def)
qed



lemma chunk_next_cases:
  assumes "lodepng_chunk_next c \<noteq> []"
  shows "\<exists>x. c = x @ lodepng_chunk_next c \<and> chunk_stride x"
proof -
  have l: "12 \<le> length c"
    using assms by (cases "length c < 12") (simp_all add: lodepng_chunk_next_def)
  show ?thesis
  proof (cases "take 8 c = PNG_SIGNATURE")
    case True
    then have n: "lodepng_chunk_next c = drop 8 c"
      using l by (simp add: lodepng_chunk_next_def)
    have "c = take 8 c @ drop 8 c"
      by simp
    then have "c = PNG_SIGNATURE @ lodepng_chunk_next c"
      unfolding n True .
    then show ?thesis
      unfolding chunk_stride_def by blast
  next
    case False
    define total where "total = unat (lodepng_chunk_length c) + 12"
    have nxt: "lodepng_chunk_next c = (if total > length c then [] else drop total c)"
      using l False by (simp add: lodepng_chunk_next_def Let_def total_def)
    have fits: "total \<le> length c"
      using assms nxt by (cases "total > length c") simp_all
    then have n: "lodepng_chunk_next c = drop total c"
      using nxt by simp
    have "lodepng_chunk_length (take total c) = lodepng_chunk_length c"
      using l by (intro chunk_length_take) (simp_all add: total_def)
    moreover have "take 8 (take total c) = take 8 c"
      by (simp add: total_def min_def)
    moreover have "length (take total c) = total"
      using fits by simp
    ultimately have "well_formed_chunk (take total c)"
      using False unfolding well_formed_chunk_def total_def by simp
    moreover have "c = take total c @ lodepng_chunk_next c"
      by (simp add: n)
    ultimately show ?thesis
      unfolding chunk_stride_def by blast
  qed
qed

lemma get_chunks_loop_Nil: "get_chunks_loop T [] = Inr []"
  by (simp add: get_chunks_loop.simps)

lemma get_chunks_loop_step:
  assumes "c \<noteq> []" and "get_chunks_loop T c = Inr res"
  shows "\<exists>v. is_valid T c = Inr v \<and>
           (if v then \<exists>x rest. construct T c = Inr x \<and> res = x # rest
                        \<and> get_chunks_loop T (lodepng_chunk_next c) = Inr rest
            else get_chunks_loop T (lodepng_chunk_next c) = Inr res)"
proof -
  from assms(2) have
    "(case is_valid T c of
        Inl e \<Rightarrow> Inl e
      | Inr v \<Rightarrow>
          if v then
            (case construct T c of
               Inl e \<Rightarrow> Inl e
             | Inr x \<Rightarrow>
                 (case get_chunks_loop T (lodepng_chunk_next c) of
                    Inl e \<Rightarrow> Inl e
                  | Inr chunks \<Rightarrow> Inr (x # chunks)))
          else get_chunks_loop T (lodepng_chunk_next c)) = Inr res"
    using assms(1) by (subst (asm) get_chunks_loop.simps) simp
  then show ?thesis
    by (auto split: sum.splits if_splits)
qed

lemma get_chunks_loop_next:
  assumes "c \<noteq> []" and "get_chunks_loop T c = Inr res"
  shows "\<exists>r1 r2. res = r1 @ r2 \<and> get_chunks_loop T (lodepng_chunk_next c) = Inr r2"
proof -
  from get_chunks_loop_step [OF assms] obtain v where
    v: "if v then \<exists>x rest. construct T c = Inr x \<and> res = x # rest
                        \<and> get_chunks_loop T (lodepng_chunk_next c) = Inr rest
        else get_chunks_loop T (lodepng_chunk_next c) = Inr res"
    by blast
  show ?thesis
  proof (cases v)
    case True
    with v obtain x rest where "res = [x] @ rest"
      and "get_chunks_loop T (lodepng_chunk_next c) = Inr rest"
      by auto
    then show ?thesis by blast
  next
    case False
    with v have "res = [] @ res" and "get_chunks_loop T (lodepng_chunk_next c) = Inr res"
      by simp_all
    then show ?thesis by blast
  qed
qed

lemma get_chunks_loop_skip:
  assumes "\<forall>x\<in>set pre. well_formed_chunk x"
    and "get_chunks_loop T (concat pre @ c) = Inr res"
  shows "\<exists>r1 r2. res = r1 @ r2 \<and> get_chunks_loop T c = Inr r2"
  using assms
proof (induction pre arbitrary: res)
  case Nil
  then have "res = [] @ res \<and> get_chunks_loop T c = Inr res"
    by simp
  then show ?case by blast
next
  case (Cons x pre)
  have wf: "well_formed_chunk x"
    using Cons.prems(1) by simp
  then have ne: "x @ concat pre @ c \<noteq> []"
    using well_formed_chunk_length [of x] by auto
  have nxt: "lodepng_chunk_next (x @ concat pre @ c) = concat pre @ c"
    using wf by (rule chunk_next_well_formed)
  from Cons.prems(2) have "get_chunks_loop T (x @ concat pre @ c) = Inr res"
    by simp
  from get_chunks_loop_next [OF ne this]
  obtain r0 res' where r0: "res = r0 @ res'"
    and res': "get_chunks_loop T (concat pre @ c) = Inr res'"
    unfolding nxt by blast
  have "\<forall>x\<in>set pre. well_formed_chunk x"
    using Cons.prems(1) by simp
  from Cons.IH [OF this res']
  obtain r1 r2 where "res' = r1 @ r2" and r2: "get_chunks_loop T c = Inr r2"
    by blast
  then have "res = (r0 @ r1) @ r2"
    using r0 by simp
  with r2 show ?case
    by blast
qed


section \<open>Decoding a text chunk\<close>


lemma memchr_None:
  assumes "memchr s ch n = Inr None"
  shows "n \<le> length s \<and> ch \<notin> set (take n s)"
proof -
  define t where "t = takeWhile (\<lambda>b. b \<noteq> ch) (take n s)"
  have n: "n \<le> length s" and "\<not> length t < min n (length s)"
    using assms by (simp_all add: memchr_def Let_def t_def split: if_splits)
  then have "length t = length (take n s)"
    using length_takeWhile_le [of "\<lambda>b. b \<noteq> ch" "take n s"] by (simp add: t_def)
  then have "t = take n s"
    unfolding t_def by (metis takeWhile_eq_take take_all order_refl)
  moreover have "ch \<notin> set t"
    unfolding t_def by (auto dest: set_takeWhileD)
  ultimately show ?thesis
    using n by simp
qed

lemma memchr_in_bounds:
  "n \<le> length s \<Longrightarrow> memchr s ch n \<noteq> Inl Undefined"
  by (simp add: memchr_def Let_def)


lemma memchr_None_iff:
  "n \<le> length s \<Longrightarrow> memchr s ch n = Inr None \<longleftrightarrow> ch \<notin> set (take n s)"
proof
  assume "memchr s ch n = Inr None"
  then show "ch \<notin> set (take n s)"
    by (simp add: memchr_None)
next
  assume n: "n \<le> length s" and "ch \<notin> set (take n s)"
  have tw: "takeWhile (\<lambda>b. b \<noteq> ch) (take n s) = take n s"
    using \<open>ch \<notin> set (take n s)\<close> by (rule takeWhile_all)
  have "length (takeWhile (\<lambda>b. b \<noteq> ch) (take n s)) = n"
    unfolding tw using n by simp
  then show "memchr s ch n = Inr None"
    using n by (simp add: memchr_def Let_def)
qed



lemma TextChunk_decode_no_separator:
  assumes nz: "lodepng_chunk_length c \<noteq> 0"
    and fits: "8 + unat (lodepng_chunk_length c) \<le> length c"
    and absent: "0 \<notin> set (take (unat (lodepng_chunk_length c) - 1) (drop 8 c))"
  shows "TextChunk_decode z c = Inl CorruptChunk"
proof -
  have n: "unat (lodepng_chunk_length c - 1) = unat (lodepng_chunk_length c) - 1"
    using nz by (simp add: unat_minus_one)
  have "unat (lodepng_chunk_length c) - 1 \<le> length (drop 8 c)"
    using fits by simp
  then have "memchr (drop 8 c) 0 (unat (lodepng_chunk_length c) - 1) = Inr None"
    using absent by (simp add: memchr_None_iff)
  then show ?thesis
    using fits by (simp add: TextChunk_decode_def n lodepng_chunk_data_const_def)
qed

lemma TextChunk_decode_compression_method:
  assumes fits: "8 + unat (lodepng_chunk_length c) \<le> length c"
    and first: "drop 8 c = k @ 0 # m # rest" "0 \<notin> set k"
    and inside: "length k + 2 \<le> unat (lodepng_chunk_length c)"
    and nonzero: "m \<noteq> 0"
  shows "TextChunk_decode z c = Inl CorruptChunk"
proof -
  have nz: "lodepng_chunk_length c \<noteq> 0"
    using inside by (metis not_numeral_le_zero add_is_0 unat_0 le_zero_eq)
  have n: "unat (lodepng_chunk_length c - 1) = unat (lodepng_chunk_length c) - 1"
    using nz by (simp add: unat_minus_one)
  have "memchr (k @ 0 # m # rest) 0 (unat (lodepng_chunk_length c) - 1) = Inr (Some (length k))"
    using first(2) inside by (intro memchr_first) simp_all
  then show ?thesis
    using fits nonzero
    by (simp add: TextChunk_decode_def n lodepng_chunk_data_const_def first(1) nth_append)
qed


section \<open>\<^verbatim>\<open>fuSe\<close> chunks\<close>

lemma length_FuseChunk_type [simp]: "length FuseChunk_type = 4"
  by (simp add: FuseChunk_type_def bytes_of_def)

lemma length_FuseChunk_key [simp]: "length FuseChunk_key = 7"
  by (simp add: FuseChunk_key_def bytes_of_def)

lemma length_IDAT [simp]: "length IDAT = 4"
  by (simp add: IDAT_def bytes_of_def)


lemma FuseChunk_is_valid_long:
  assumes "15 \<le> length s"
  shows "FuseChunk_is_valid (s @ r)
           = Inr (take 4 (drop 4 s) = FuseChunk_type \<and> take 7 (drop 8 s) = FuseChunk_key)"
proof -
  have "lodepng_chunk_type_equals (s @ r) FuseChunk_type = Inr (take 4 (drop 4 s) = FuseChunk_type)"
    using assms by (intro chunk_type_equals_append) simp_all
  moreover have "memcmp_eq FuseChunk_key (lodepng_chunk_data_const (s @ r))
                   = Inr (take 7 (drop 8 s) = FuseChunk_key)"
    using assms by (simp add: memcmp_eq_def lodepng_chunk_data_const_def)
  ultimately show ?thesis
    by (simp add: FuseChunk_is_valid_def split: bool.splits)
qed


lemma FuseChunk_is_valid_other_type:
  assumes "8 \<le> length s" and "take 4 (drop 4 s) \<noteq> FuseChunk_type"
  shows "FuseChunk_is_valid (s @ r) = Inr False"
proof -
  have "lodepng_chunk_type_equals (s @ r) FuseChunk_type = Inr (take 4 (drop 4 s) = FuseChunk_type)"
    using assms(1) by (intro chunk_type_equals_append) simp_all
  then show ?thesis
    using assms(2) by (simp add: FuseChunk_is_valid_def)
qed







section \<open>The structure of a loaded image\<close>

lemma bytes_match_True:
  "bytes_match s t = Inr True \<Longrightarrow> length t \<le> length s \<and> take (length t) s = t"
  by (induction s t rule: bytes_match.induct) (auto split: if_splits)

lemma chunk_type_equals_True:
  assumes "lodepng_chunk_type_equals c ty = Inr True"
  shows "8 \<le> length c \<and> take 4 (drop 4 c) = ty"
proof -
  have 4: "length ty = 4" and "bytes_match (drop 4 c) ty = Inr True"
    using assms by (auto simp add: lodepng_chunk_type_equals_def split: if_splits)
  from bytes_match_True [OF this(2)] have "4 \<le> length c - 4" and "take 4 (drop 4 c) = ty"
    using 4 by simp_all
  then show ?thesis
    by (simp add: le_diff_conv2)
qed

lemma chunk_type_equals_Nil: "lodepng_chunk_type_equals [] IDAT = Inl Undefined"
  by (simp add: lodepng_chunk_type_equals_def IDAT_def bytes_of_def)

lemma chunk_stride_IDAT:
  assumes "chunk_stride x" and "take 4 (drop 4 (x @ r)) = IDAT"
  shows "well_formed_chunk x \<and> take 4 (drop 4 x) = IDAT"
proof -
  have "x \<noteq> PNG_SIGNATURE"
    using assms(2) by (auto simp add: PNG_SIGNATURE_def IDAT_def bytes_of_def)
  then have wf: "well_formed_chunk x"
    using assms(1) by (simp add: chunk_stride_def)
  then have "12 \<le> length x"
    by (rule well_formed_chunk_length)
  then show ?thesis
    using wf assms(2) by simp
qed

lemma chunk_find_structure:
  "lodepng_chunk_find_const c ty = Some d \<Longrightarrow>
     \<exists>xs. c = concat xs @ d \<and> (\<forall>x\<in>set xs. chunk_stride x)
          \<and> lodepng_chunk_type_equals d ty = Inr True"
proof (induction c ty rule: lodepng_chunk_find_const.induct)
  case (1 chunk ty)
  have long: "\<not> length chunk < 12"
    using "1.prems" by (subst (asm) lodepng_chunk_find_const.simps) (simp split: if_splits)
  show ?case
  proof (cases "lodepng_chunk_type_equals chunk ty = Inr True")
    case True
    then have "d = chunk"
      using "1.prems" long by (subst (asm) lodepng_chunk_find_const.simps) simp
    then have "chunk = concat [] @ d \<and> (\<forall>x\<in>set []. chunk_stride x)"
      by simp
    with True \<open>d = chunk\<close> show ?thesis
      by blast
  next
    case False
    then have find: "lodepng_chunk_find_const (lodepng_chunk_next chunk) ty = Some d"
      using "1.prems" long by (subst (asm) lodepng_chunk_find_const.simps) simp
    from "1.IH" [OF long False find]
    obtain xs where xs: "lodepng_chunk_next chunk = concat xs @ d"
      "\<forall>x\<in>set xs. chunk_stride x" "lodepng_chunk_type_equals d ty = Inr True"
      by blast
    have "lodepng_chunk_next chunk \<noteq> []"
      using find by (subst (asm) lodepng_chunk_find_const.simps) (auto split: if_splits)
    from chunk_next_cases [OF this]
    obtain x where x: "chunk = x @ lodepng_chunk_next chunk" "chunk_stride x"
      by blast
    have "chunk = concat (x # xs) @ d"
      using x(1) xs(1) by simp
    moreover have "\<forall>x\<in>set (x # xs). chunk_stride x"
      using x(2) xs(2) by simp
    ultimately show ?thesis
      using xs(3) by blast
  qed
qed

lemma find_idat_end_loop_structure:
  "find_idat_end_loop c = Inr d \<Longrightarrow>
     d \<noteq> [] \<and>
     (c = d \<or>
      (\<exists>xs y. c = concat xs @ y @ d \<and> (\<forall>x\<in>set xs. chunk_stride x)
             \<and> well_formed_chunk y \<and> take 4 (drop 4 y) = IDAT))"
proof (induction c rule: find_idat_end_loop.induct)
  case (1 chunk)
  from "1.prems" obtain b where b: "lodepng_chunk_type_equals chunk IDAT = Inr b"
    by (subst (asm) find_idat_end_loop.simps) (auto split: sum.splits)
  show ?case
  proof (cases b)
    case False
    then have "d = chunk"
      using "1.prems" b by (subst (asm) find_idat_end_loop.simps) simp
    moreover have "chunk \<noteq> []"
      using b chunk_type_equals_Nil by auto
    ultimately show ?thesis
      by simp
  next
    case True
    then have loop: "find_idat_end_loop (lodepng_chunk_next chunk) = Inr d"
      using "1.prems" b by (subst (asm) find_idat_end_loop.simps) simp
    from "1.IH" [OF b True loop] have d: "d \<noteq> []"
      and rest: "lodepng_chunk_next chunk = d \<or>
        (\<exists>xs y. lodepng_chunk_next chunk = concat xs @ y @ d \<and> (\<forall>x\<in>set xs. chunk_stride x)
               \<and> well_formed_chunk y \<and> take 4 (drop 4 y) = IDAT)"
      by simp_all
    have "lodepng_chunk_next chunk \<noteq> []"
      using rest d by auto
    from chunk_next_cases [OF this]
    obtain x where x: "chunk = x @ lodepng_chunk_next chunk" "chunk_stride x"
      by blast
    have "take 4 (drop 4 (x @ lodepng_chunk_next chunk)) = IDAT"
      using chunk_type_equals_True [of chunk IDAT] b True x(1) by simp
    from chunk_stride_IDAT [OF x(2) this]
    have wf: "well_formed_chunk x" and ty: "take 4 (drop 4 x) = IDAT"
      by simp_all
    from rest show ?thesis
    proof
      assume "lodepng_chunk_next chunk = d"
      then have "chunk = concat [] @ x @ d \<and> (\<forall>x\<in>set []. chunk_stride x)"
        using x(1) by simp
      with wf ty d show ?thesis
        by blast
    next
      assume "\<exists>xs y. lodepng_chunk_next chunk = concat xs @ y @ d
                \<and> (\<forall>x\<in>set xs. chunk_stride x) \<and> well_formed_chunk y \<and> take 4 (drop 4 y) = IDAT"
      then obtain xs y where xs: "lodepng_chunk_next chunk = concat xs @ y @ d"
        "\<forall>x\<in>set xs. chunk_stride x" "well_formed_chunk y" "take 4 (drop 4 y) = IDAT"
        by blast
      have "chunk = concat (x # xs) @ y @ d"
        using x(1) xs(1) by simp
      moreover have "\<forall>x\<in>set (x # xs). chunk_stride x"
        using x(2) xs(2) by simp
      ultimately show ?thesis
        using xs(3,4) d by blast
    qed
  qed
qed

lemma Image_load_structure:
  assumes "Image_load file = Inr img"
  shows "\<exists>xs y post. file = PNG_SIGNATURE @ concat xs @ y @ post
           \<and> (\<forall>x\<in>set xs. chunk_stride x) \<and> well_formed_chunk y \<and> take 4 (drop 4 y) = IDAT
           \<and> post \<noteq> [] \<and> image img = file
           \<and> idat_end_pos img = length (PNG_SIGNATURE @ concat xs @ y)"
proof -
  have sig: "take 8 file = PNG_SIGNATURE" and long: "8 \<le> length file"
    using assms by (auto simp add: Image_load_def split: if_splits)
  from assms obtain pos where pos: "find_idat_end file = Inr pos"
    and img: "img = \<lparr>image = file, idat_end_pos = pos\<rparr>"
    using sig long by (auto simp add: Image_load_def split: sum.splits)
  from pos obtain c d where c: "lodepng_chunk_find_const (drop 8 file) IDAT = Some c"
    and d: "find_idat_end_loop c = Inr d" and p: "pos = length file - length d"
    by (auto simp add: find_idat_end_def split: option.splits sum.splits)
  from chunk_find_structure [OF c]
  obtain xs where xs: "drop 8 file = concat xs @ c" "\<forall>x\<in>set xs. chunk_stride x"
    "lodepng_chunk_type_equals c IDAT = Inr True"
    by blast
  have "c \<noteq> d"
  proof
    assume "c = d"
    with d xs(3) have loop: "find_idat_end_loop (lodepng_chunk_next d) = Inr d"
      by (subst (asm) find_idat_end_loop.simps) simp
    from find_idat_end_loop_structure [OF this]
    have "d \<noteq> []" and "length d \<le> length (lodepng_chunk_next d)"
      by auto
    then show False
      by (simp add: lodepng_chunk_next_def Let_def split: if_splits)
  qed
  with find_idat_end_loop_structure [OF d]
  obtain ys y where ys: "c = concat ys @ y @ d" "\<forall>x\<in>set ys. chunk_stride x"
    "well_formed_chunk y" "take 4 (drop 4 y) = IDAT" and ne: "d \<noteq> []"
    by blast
  have "file = take 8 file @ drop 8 file"
    by simp
  then have whole: "file = PNG_SIGNATURE @ concat (xs @ ys) @ y @ d"
    unfolding sig xs(1) ys(1) by simp
  moreover have "\<forall>x\<in>set (xs @ ys). chunk_stride x"
    using xs(2) ys(2) by auto
  moreover have "idat_end_pos img = length (PNG_SIGNATURE @ concat (xs @ ys) @ y)"
    unfolding img p by (subst whole) simp
  moreover have "image img = file"
    by (simp add: img)
  ultimately show ?thesis
    using ys(3,4) ne by blast
qed


section \<open>Enumeration and insertion\<close>



lemma FuseChunk_T_simps [simp]:
  "encode (FuseChunk_T z) = FuseChunk_encode z"
  "is_valid (FuseChunk_T z) = FuseChunk_is_valid"
  "construct (FuseChunk_T z) = FuseChunk_decode z"
  by (simp_all add: FuseChunk_T_def)





section \<open>Deleting chunks\<close>

lemma find_ranges_Nil: "find_ranges T n [] range_begin ranges chunk_count = Inr (ranges, chunk_count)"
  by (simp add: find_ranges.simps)

lemma find_ranges_valid:
  "c \<noteq> [] \<Longrightarrow> is_valid T c = Inr True \<Longrightarrow>
     find_ranges T n c range_begin ranges chunk_count =
       find_ranges T n (lodepng_chunk_next c)
         (case range_begin of None \<Rightarrow> Some (n - length c) | Some b \<Rightarrow> Some b)
         ranges (chunk_count + 1)"
  by (subst find_ranges.simps) simp

lemma find_ranges_invalid:
  "c \<noteq> [] \<Longrightarrow> is_valid T c = Inr False \<Longrightarrow>
     find_ranges T n c range_begin ranges chunk_count =
       find_ranges T n (lodepng_chunk_next c) None
         (ranges @ (case range_begin of Some b \<Rightarrow> [(b, n - length c)] | None \<Rightarrow> []))
         chunk_count"
  by (subst find_ranges.simps) (simp split: option.splits)

lemma find_ranges_chunks:
  assumes "\<forall>x\<in>set xs. well_formed_chunk x \<and> decided T x"
    and "length (concat xs) \<le> n"
  shows "find_ranges T n (concat xs) range_begin ranges chunk_count =
           Inr (ranges @ chunk_ranges T (n - length (concat xs)) range_begin xs,
                chunk_count + length (filter (matching T) xs))"
  using assms
proof (induction xs arbitrary: range_begin ranges chunk_count)
  case Nil
  show ?case
    by (simp add: find_ranges_Nil)
next
  case (Cons x xs)
  have wf: "well_formed_chunk x" and dec: "decided T x"
    using Cons.prems(1) by simp_all
  have lx: "12 \<le> length x"
    using wf by (rule well_formed_chunk_length)
  then have ne: "x @ concat xs \<noteq> []"
    by auto
  have nxt: "lodepng_chunk_next (x @ concat xs) = concat xs"
    using wf by (rule chunk_next_well_formed)
  have valid: "is_valid T (x @ concat xs) = Inr (matching T x)"
    using dec by (simp add: decided_def)
  have rest: "\<forall>x\<in>set xs. well_formed_chunk x \<and> decided T x" "length (concat xs) \<le> n"
    using Cons.prems by simp_all
  have pos: "n - length (concat xs) = n - length (x @ concat xs) + length x"
    using Cons.prems(2) by simp
  show ?case
  proof (cases "matching T x")
    case True
    have "find_ranges T n (x @ concat xs) range_begin ranges chunk_count =
            find_ranges T n (concat xs)
              (case range_begin of None \<Rightarrow> Some (n - length (x @ concat xs)) | Some b \<Rightarrow> Some b)
              ranges (chunk_count + 1)"
      using find_ranges_valid [OF ne, of T n range_begin ranges chunk_count] valid True
      by (simp only: nxt)
    then show ?thesis
      using True Cons.IH [OF rest] pos by (simp split: option.splits)
  next
    case False
    have "find_ranges T n (x @ concat xs) range_begin ranges chunk_count =
            find_ranges T n (concat xs) None
              (ranges @ (case range_begin of Some b \<Rightarrow> [(b, n - length (x @ concat xs))] | None \<Rightarrow> []))
              chunk_count"
      using find_ranges_invalid [OF ne, of T n range_begin ranges chunk_count] valid False
      by (simp only: nxt)
    then show ?thesis
      using False Cons.IH [OF rest] pos by (simp split: option.splits)
  qed
qed

lemma erase_chunk_ranges:
  assumes "xs \<noteq> [] \<Longrightarrow> \<not> matching T (last xs)"
    and "xs = [] \<Longrightarrow> range_begin = None"
    and "\<And>b. range_begin = Some b \<Longrightarrow> b \<le> length pre"
  shows "foldl vector_erase (pre @ concat xs) (rev (chunk_ranges T (length pre) range_begin xs))
           = (case range_begin of None \<Rightarrow> pre | Some b \<Rightarrow> take b pre)
               @ concat (filter (\<lambda>x. \<not> matching T x) xs)"
  using assms
proof (induction xs arbitrary: pre range_begin)
  case Nil
  then show ?case
    by simp
next
  case (Cons x xs)
  have last: "xs \<noteq> [] \<Longrightarrow> \<not> matching T (last xs)"
    using Cons.prems(1) by simp
  show ?case
  proof (cases "matching T x")
    case True
    then have ne: "xs \<noteq> []"
      using Cons.prems(1) by auto
    define b' where "b' = (case range_begin of None \<Rightarrow> length pre | Some b \<Rightarrow> b)"
    have b': "b' \<le> length pre"
      using Cons.prems(3) by (auto simp add: b'_def split: option.splits)
    have opened: "(case range_begin of None \<Rightarrow> Some (length pre) | Some b \<Rightarrow> Some b) = Some b'"
      by (simp add: b'_def split: option.splits)
    have "foldl vector_erase ((pre @ x) @ concat xs)
            (rev (chunk_ranges T (length (pre @ x)) (Some b') xs))
          = (case Some b' of None \<Rightarrow> pre @ x | Some b \<Rightarrow> take b (pre @ x))
              @ concat (filter (\<lambda>x. \<not> matching T x) xs)"
      using last ne b' by (intro Cons.IH) simp_all
    moreover have "take b' pre = (case range_begin of None \<Rightarrow> pre | Some b \<Rightarrow> take b pre)"
      by (simp add: b'_def split: option.splits)
    ultimately show ?thesis
      using True b' by (simp add: opened)
  next
    case False
    define r0 where "r0 = (case range_begin of Some b \<Rightarrow> [(b, length pre)] | None \<Rightarrow> [])"
    define kept where "kept = concat (filter (\<lambda>x. \<not> matching T x) xs)"
    have "foldl vector_erase ((pre @ x) @ concat xs)
            (rev (chunk_ranges T (length (pre @ x)) None xs))
          = (case None of None \<Rightarrow> pre @ x | Some b \<Rightarrow> take b (pre @ x))
              @ concat (filter (\<lambda>x. \<not> matching T x) xs)"
      using last by (intro Cons.IH) simp_all
    then have inner: "foldl vector_erase (pre @ x @ concat xs)
            (rev (chunk_ranges T (length pre + length x) None xs)) = pre @ x @ kept"
      by (simp add: kept_def)
    have "foldl vector_erase (pre @ x @ kept) (rev r0)
            = (case range_begin of None \<Rightarrow> pre | Some b \<Rightarrow> take b pre) @ x @ kept"
      using Cons.prems(3) by (auto simp add: r0_def vector_erase_def split: option.splits)
    then show ?thesis
      using False inner by (simp add: r0_def [symmetric] kept_def [symmetric])
  qed
qed

lemma chunk_ranges_no_match:
  "\<forall>x\<in>set xs. \<not> matching T x \<Longrightarrow> chunk_ranges T pos None xs = []"
  by (induction xs arbitrary: pos) simp_all

lemma clear_chunks_twice:
  assumes im: "image img = PNG_SIGNATURE @ concat xs"
    and chunks: "\<forall>x\<in>set xs. well_formed_chunk x \<and> decided T x"
    and last: "xs \<noteq> [] \<longrightarrow> \<not> matching T (last xs)"
  shows "\<exists>img'. clear_chunks T img = Inr (length (filter (matching T) xs), img')
           \<and> image img' = PNG_SIGNATURE @ concat (filter (\<lambda>x. \<not> matching T x) xs)
           \<and> clear_chunks T img' = Inr (0, img')"
proof -
  define kept where "kept = filter (\<lambda>x. \<not> matching T x) xs"
  define img' where "img' = img\<lparr>image := PNG_SIGNATURE @ concat kept\<rparr>"
  have sig: "length PNG_SIGNATURE = 8"
    by (simp add: PNG_SIGNATURE_def)
  have "find_ranges T (length (image img)) (concat xs) None [] 0 =
          Inr ([] @ chunk_ranges T (length (image img) - length (concat xs)) None xs,
               0 + length (filter (matching T) xs))"
    using chunks by (intro find_ranges_chunks) (simp_all add: im)
  then have found: "find_ranges T (length (image img)) (drop 8 (image img)) None [] 0 =
          Inr (chunk_ranges T (length PNG_SIGNATURE) None xs, length (filter (matching T) xs))"
    by (simp add: im sig)
  have "foldl vector_erase (PNG_SIGNATURE @ concat xs)
          (rev (chunk_ranges T (length PNG_SIGNATURE) None xs))
        = (case None of None \<Rightarrow> PNG_SIGNATURE | Some b \<Rightarrow> take b PNG_SIGNATURE) @ concat kept"
    unfolding kept_def using last by (intro erase_chunk_ranges) simp_all
  then have first: "clear_chunks T img = Inr (length (filter (matching T) xs), img')"
    using found by (simp add: clear_chunks_def im sig img'_def)
  have kept: "\<forall>x\<in>set kept. well_formed_chunk x \<and> decided T x" "\<forall>x\<in>set kept. \<not> matching T x"
    using chunks by (simp_all add: kept_def)
  have im': "image img' = PNG_SIGNATURE @ concat kept"
    by (simp add: img'_def)
  have "find_ranges T (length (image img')) (concat kept) None [] 0 =
          Inr ([] @ chunk_ranges T (length (image img') - length (concat kept)) None kept,
               0 + length (filter (matching T) kept))"
    using kept(1) by (intro find_ranges_chunks) (simp_all add: im')
  moreover have "filter (matching T) kept = []"
    using kept(2) by (simp add: filter_empty_conv)
  ultimately have "find_ranges T (length (image img')) (drop 8 (image img')) None [] 0 = Inr ([], 0)"
    using chunk_ranges_no_match [OF kept(2)] by (simp add: im' sig)
  then have "clear_chunks T img' = Inr (0, img')"
    by (simp add: clear_chunks_def im' sig img'_def)
  with first im' show ?thesis
    unfolding kept_def by blast
qed

lemma decided_FuseChunk:
  assumes "well_formed_chunk x"
    and "take 4 (drop 4 x) \<noteq> FuseChunk_type \<or> 15 \<le> length x"
  shows "decided (FuseChunk_T z) x"
proof (cases "take 4 (drop 4 x) = FuseChunk_type")
  case False
  have "8 \<le> length x"
    using well_formed_chunk_length [OF assms(1)] by simp
  then have "FuseChunk_is_valid (x @ r) = Inr False" for r
    using False by (rule FuseChunk_is_valid_other_type)
  from this [of "[]"] this show ?thesis
    by (simp add: decided_def matching_def)
next
  case True
  then have "15 \<le> length x"
    using assms(2) by simp
  then have "FuseChunk_is_valid (x @ r)
      = Inr (take 4 (drop 4 x) = FuseChunk_type \<and> take 7 (drop 8 x) = FuseChunk_key)" for r
    by (rule FuseChunk_is_valid_long)
  from this [of "[]"] this show ?thesis
    by (simp add: decided_def matching_def)
qed


section \<open>Evaluating the model on the example data\<close>

lemmas example_defs = example_png_def example_IHDR_def example_IDAT_def example_IEND_def
  PNG_SIGNATURE_def

lemmas chunk_eval = lodepng_chunk_next_def lodepng_chunk_type_equals_def lodepng_chunk_length_def
  lodepng_read32bitInt_def lodepng_chunk_data_const_def IDAT_def FuseChunk_type_def
  FuseChunk_key_def TextChunk_type_def bytes_of_def memcmp_eq_def Let_def

lemmas zlib_eval = stored_zlib_def compress_def decompress_def stored_compress_def
  stored_decompress_def stored_blocks.simps stored_inflate.simps le16_def adler32_def
  lodepng_set32bitInt_def

lemmas decode_eval = TextChunk_decode_def FuseChunk_decode_def memchr_def

lemma length_example_png: "length example_png = 70"
  by (simp add: example_defs)

lemma Image_load_example:
  "Image_load example_png = Inr \<lparr>image = example_png, idat_end_pos = 58\<rparr>"
  by (simp add: Image_load_def find_idat_end_def lodepng_chunk_find_const.simps
      find_idat_end_loop.simps chunk_eval example_defs)




lemma well_formed_example_IHDR: "well_formed_chunk example_IHDR"
  by (simp add: well_formed_chunk_def chunk_eval example_defs)

lemma FuseChunk_is_valid_example:
  "FuseChunk_is_valid (example_fuSe @ example_IDAT @ example_IEND) = Inr True"
  by (simp add: FuseChunk_is_valid_def chunk_eval example_fuSe_def)

lemma get_chunks_example_before_IDAT:
  "get_chunks (FuseChunk_T stored_zlib)
     \<lparr>image = PNG_SIGNATURE @ example_IHDR @ example_fuSe @ example_IDAT @ example_IEND,
      idat_end_pos = 101\<rparr>
   = Inr [FuseChunk_of_SubFile \<lparr>name = bytes_of ''a.txt'', contents = bytes_of ''hello''\<rparr>]"
  by (simp add: get_chunks_def get_chunks_loop.simps FuseChunk_is_valid_def chunk_eval
      decode_eval zlib_eval example_defs example_fuSe_def FuseChunk_of_SubFile_def merged_def)


lemma clear_chunks_twice_example:
  "\<exists>img'.
     clear_chunks (FuseChunk_T z)
       \<lparr>image = PNG_SIGNATURE @ example_IHDR @ example_IDAT @ example_fuSe @ example_IEND,
        idat_end_pos = 58\<rparr> = Inr (1, img')
     \<and> image img' = example_png
     \<and> clear_chunks (FuseChunk_T z) img' = Inr (0, img')"
proof -
  let ?T = "FuseChunk_T z"
  let ?xs = "[example_IHDR, example_IDAT, example_fuSe, example_IEND]"
  let ?img = "\<lparr>image = PNG_SIGNATURE @ example_IHDR @ example_IDAT @ example_fuSe @ example_IEND,
               idat_end_pos = 58\<rparr>"
  have wf: "well_formed_chunk example_IHDR" "well_formed_chunk example_IDAT"
    "well_formed_chunk example_fuSe" "well_formed_chunk example_IEND"
    by (simp_all add: well_formed_chunk_def chunk_eval example_defs example_fuSe_def)
  have ty: "take 4 (drop 4 example_IHDR) \<noteq> FuseChunk_type"
    "take 4 (drop 4 example_IDAT) \<noteq> FuseChunk_type"
    "15 \<le> length example_fuSe"
    "take 4 (drop 4 example_IEND) \<noteq> FuseChunk_type"
    by (simp_all add: chunk_eval example_defs example_fuSe_def)
  have dec: "\<forall>x\<in>set ?xs. well_formed_chunk x \<and> decided ?T x"
    using wf ty by (simp add: decided_FuseChunk)
  have m: "\<not> matching ?T example_IHDR" "\<not> matching ?T example_IDAT"
    "matching ?T example_fuSe" "\<not> matching ?T example_IEND"
    by (simp_all add: matching_def FuseChunk_is_valid_def chunk_eval example_defs example_fuSe_def)
  have "image ?img = PNG_SIGNATURE @ concat ?xs"
    by simp
  from clear_chunks_twice [OF this dec] m show ?thesis
    by (simp add: example_png_def)
qed

lemma word32_minus_1: "(- 1 :: 32 word) = 4294967295"
  by simp

lemma unat_word32_minus_1: "unat (- 1 :: 32 word) = 4294967295"
  unfolding word32_minus_1 by simp


section \<open>The stored-block codec and payloads beyond the length field\<close>

















section \<open>The claims\<close>




text \<open>C2. For every file name without a NUL byte and every content (NUL bytes allowed),
  \<^verbatim>\<open>SubFile::from_merged\<close> applied to the merged representation of a sub-file returns the
  sub-file with exactly that name and that content.\<close>

theorem from_merged_merged:
  "0 \<notin> set (name f) \<Longrightarrow> from_merged (merged f) = Inr f"
  by (simp add: from_merged_def merged_def memchr_first)

theorem from_merged_merged_witness:
  "0 \<notin> set (bytes_of ''a.txt'') \<and>
   from_merged (merged \<lparr>name = bytes_of ''a.txt'', contents = [0, 1, 0, 255]\<rparr>)
     = Inr \<lparr>name = bytes_of ''a.txt'', contents = [0, 1, 0, 255]\<rparr>"
  using from_merged_merged [of "\<lparr>name = bytes_of ''a.txt'', contents = [0, 1, 0, 255]\<rparr>"]
  by (simp add: bytes_of_def)




text \<open>C4. \<^verbatim>\<open>clear_chunks\<close> on an image whose last chunk is a \<^verbatim>\<open>fuSe\<close> chunk (here after
  \<^verbatim>\<open>IEND\<close>): the loop ends with the range of that chunk still open, so the chunk is counted
  but its range is never recorded or erased. The call returns 1 and leaves the image as it
  was; a second call therefore returns 1 again, not 0.\<close>

theorem clear_chunks_trailing_chunk:
  "Image_load (example_png @ example_fuSe)
     = Inr \<lparr>image = example_png @ example_fuSe, idat_end_pos = 58\<rparr>
   \<and> clear_chunks (FuseChunk_T stored_zlib) \<lparr>image = example_png @ example_fuSe, idat_end_pos = 58\<rparr>
     = Inr (1, \<lparr>image = example_png @ example_fuSe, idat_end_pos = 58\<rparr>)"
  by (simp add: Image_load_def find_idat_end_def lodepng_chunk_find_const.simps
      find_idat_end_loop.simps clear_chunks_def find_ranges.simps FuseChunk_is_valid_def
      chunk_eval example_defs example_fuSe_def)

theorem clear_chunks_trailing_chunk_witness:
  "\<exists>img'.
     clear_chunks (FuseChunk_T stored_zlib)
       \<lparr>image = example_png @ example_fuSe, idat_end_pos = 58\<rparr> = Inr (1, img')
     \<and> clear_chunks (FuseChunk_T stored_zlib) img' = Inr (1, img')"
  using clear_chunks_trailing_chunk by blast




text \<open>C6. On a byte sequence without a NUL byte \<^verbatim>\<open>SubFile::from_merged\<close> throws nothing:
  \<^verbatim>\<open>memchr\<close> returns the null pointer, which is used as the end of the file name and, plus
  one, as the start of the contents. The behaviour is undefined.\<close>

theorem from_merged_without_NUL:
  "0 \<notin> set data \<Longrightarrow> from_merged data = Inl Undefined"
  by (simp add: from_merged_def memchr_absent)

theorem from_merged_without_NUL_witness:
  "0 \<notin> set (bytes_of ''abc'') \<and> from_merged (bytes_of ''abc'') = Inl Undefined"
  using from_merged_without_NUL [of "bytes_of ''abc''"]
  by (simp add: bytes_of_def)

text \<open>C7. For a chunk whose length field is 0, \<^verbatim>\<open>length - 1\<close> wraps to \<open>2 ^ 32 - 1\<close> and
  \<^verbatim>\<open>memchr\<close> searches the CRC and what follows the chunk. Followed by an \<^verbatim>\<open>IEND\<close> chunk,
  the NUL byte is found in the length field of \<^verbatim>\<open>IEND\<close>, the byte after it is 0, and
  \<^verbatim>\<open>compressed_length\<close> is \<open>0 - 6\<close> cast to \<^verbatim>\<open>size_t\<close>; at the end of the buffer the search
  runs off the buffer. Neither is the exception for a corrupt chunk. (For a chunk with a
  non-empty payload inside the buffer, \<open>TextChunk_decode_no_separator\<close>,
  \<open>TextChunk_decode_compression_method\<close> and \<open>TextChunk_decode_Inr\<close> above give the two
  failures and the key.)\<close>

theorem TextChunk_decode_empty_payload:
  "TextChunk_decode z (example_empty_zTXt @ example_IEND) = Inl Undefined
   \<and> TextChunk_decode z example_empty_zTXt = Inl Undefined"
  by (simp add: decode_eval chunk_eval example_empty_zTXt_def example_IEND_def unat_word32_minus_1)

theorem TextChunk_decode_empty_payload_witness:
  "TextChunk_decode stored_zlib (example_empty_zTXt @ example_IEND) \<noteq> Inl CorruptChunk
   \<and> TextChunk_decode stored_zlib example_empty_zTXt \<noteq> Inl CorruptChunk"
  using TextChunk_decode_empty_payload [of stored_zlib] by simp

text \<open>C8. \<^verbatim>\<open>get_chunks\<close> scans from offset 8 on, not from the insertion offset: when the bytes
  between the signature and a chunk are well-formed chunks, the chunk satisfies
  \<^verbatim>\<open>ChunkT::is_valid\<close> and the enumeration returns, the chunk is constructed and is in the
  result, wherever the chunk lies (before the image data in particular).\<close>

theorem get_chunks_whole_stream:
  assumes "image img = PNG_SIGNATURE @ concat before @ chunk"
    and "\<forall>c\<in>set before. well_formed_chunk c"
    and "chunk \<noteq> []"
    and "is_valid T chunk = Inr True"
    and "get_chunks T img = Inr result"
  shows "\<exists>c. construct T chunk = Inr c \<and> c \<in> set result"
proof -
  have "drop 8 (image img) = concat before @ chunk" and "\<not> length (image img) < 8"
    unfolding assms(1) by (simp_all add: PNG_SIGNATURE_def)
  then have "get_chunks_loop T (concat before @ chunk) = Inr result"
    using assms(5) by (simp add: get_chunks_def)
  from get_chunks_loop_skip [OF assms(2) this]
  obtain r1 r2 where res: "result = r1 @ r2" and "get_chunks_loop T chunk = Inr r2"
    by blast
  from get_chunks_loop_step [OF assms(3) this(2)] assms(4)
  obtain c rest where "construct T chunk = Inr c" and "r2 = c # rest"
    by auto
  then show ?thesis
    using res by auto
qed

theorem get_chunks_whole_stream_witness:
  "image \<lparr>image = PNG_SIGNATURE @ example_IHDR @ example_fuSe @ example_IDAT @ example_IEND,
          idat_end_pos = 101\<rparr>
     = PNG_SIGNATURE @ concat [example_IHDR] @ (example_fuSe @ example_IDAT @ example_IEND)
   \<and> well_formed_chunk example_IHDR
   \<and> example_fuSe @ example_IDAT @ example_IEND \<noteq> []
   \<and> is_valid (FuseChunk_T stored_zlib) (example_fuSe @ example_IDAT @ example_IEND) = Inr True
   \<and> get_chunks (FuseChunk_T stored_zlib)
        \<lparr>image = PNG_SIGNATURE @ example_IHDR @ example_fuSe @ example_IDAT @ example_IEND,
         idat_end_pos = 101\<rparr>
       = Inr [FuseChunk_of_SubFile \<lparr>name = bytes_of ''a.txt'', contents = bytes_of ''hello''\<rparr>]
   \<and> (\<exists>c. construct (FuseChunk_T stored_zlib) (example_fuSe @ example_IDAT @ example_IEND) = Inr c
          \<and> c \<in> set [FuseChunk_of_SubFile
                          \<lparr>name = bytes_of ''a.txt'', contents = bytes_of ''hello''\<rparr>])"
proof -
  let ?img = "\<lparr>image = PNG_SIGNATURE @ example_IHDR @ example_fuSe @ example_IDAT @ example_IEND,
               idat_end_pos = 101\<rparr>"
  let ?chunk = "example_fuSe @ example_IDAT @ example_IEND"
  have 1: "image ?img = PNG_SIGNATURE @ concat [example_IHDR] @ ?chunk"
    by simp
  have 2: "\<forall>c\<in>set [example_IHDR]. well_formed_chunk c"
    using well_formed_example_IHDR by simp
  have 3: "?chunk \<noteq> []"
    by (simp add: example_fuSe_def)
  have 4: "is_valid (FuseChunk_T stored_zlib) ?chunk = Inr True"
    using FuseChunk_is_valid_example by simp
  from get_chunks_whole_stream [OF 1 2 3 4 get_chunks_example_before_IDAT]
  show ?thesis
    using 1 well_formed_example_IHDR 3 4 get_chunks_example_before_IDAT by blast
qed

text \<open>C9. Both forms of \<^verbatim>\<open>add_chunk\<close> leave the bytes of the image before the insertion
  offset as they were.\<close>

theorem add_chunk_prefix_stable:
  "(add_chunk T img chunk = Inr img' \<longrightarrow>
      take (idat_end_pos img) (image img') = take (idat_end_pos img) (image img))
   \<and> (add_chunks T img chunks = Inr img'' \<longrightarrow>
      take (idat_end_pos img) (image img'') = take (idat_end_pos img) (image img))"
  using add_chunks_prefix [of T img chunks img'']
  by (auto simp add: add_chunk_Inr)

theorem add_chunk_prefix_stable_witness:
  "add_chunk (FuseChunk_T stored_zlib) \<lparr>image = example_png, idat_end_pos = 58\<rparr>
       \<lparr>key = FuseChunk_key, value = [1, 2, 3]\<rparr>
     = Inr \<lparr>image = take 58 example_png
                     @ FuseChunk_encode stored_zlib \<lparr>key = FuseChunk_key, value = [1, 2, 3]\<rparr>
                     @ drop 58 example_png,
            idat_end_pos = 58\<rparr>
   \<and> take 58 (take 58 example_png
                 @ FuseChunk_encode stored_zlib \<lparr>key = FuseChunk_key, value = [1, 2, 3]\<rparr>
                 @ drop 58 example_png)
     = take 58 example_png
   \<and> add_chunks (FuseChunk_T stored_zlib) \<lparr>image = example_png, idat_end_pos = 58\<rparr>
       [\<lparr>key = FuseChunk_key, value = [1, 2, 3]\<rparr>, \<lparr>key = FuseChunk_key, value = []\<rparr>]
     = Inr \<lparr>image = take 58 example_png
                     @ FuseChunk_encode stored_zlib \<lparr>key = FuseChunk_key, value = [1, 2, 3]\<rparr>
                     @ FuseChunk_encode stored_zlib \<lparr>key = FuseChunk_key, value = []\<rparr>
                     @ drop 58 example_png,
            idat_end_pos = 58\<rparr>
   \<and> take 58 (take 58 example_png
                 @ FuseChunk_encode stored_zlib \<lparr>key = FuseChunk_key, value = [1, 2, 3]\<rparr>
                 @ FuseChunk_encode stored_zlib \<lparr>key = FuseChunk_key, value = []\<rparr>
                 @ drop 58 example_png)
     = take 58 example_png"
proof -
  let ?T = "FuseChunk_T stored_zlib"
  let ?img = "\<lparr>image = example_png, idat_end_pos = 58\<rparr>"
  let ?a = "\<lparr>key = FuseChunk_key, value = [1, 2, 3]\<rparr>"
  let ?b = "\<lparr>key = FuseChunk_key, value = []\<rparr>"
  let ?img' = "\<lparr>image = take 58 example_png @ FuseChunk_encode stored_zlib ?a
                  @ drop 58 example_png, idat_end_pos = 58\<rparr>"
  let ?img'' = "\<lparr>image = take 58 example_png @ FuseChunk_encode stored_zlib ?a
                  @ FuseChunk_encode stored_zlib ?b @ drop 58 example_png, idat_end_pos = 58\<rparr>"
  have one: "add_chunk ?T ?img ?a = Inr ?img'"
    by (simp add: add_chunk_Inr length_example_png)
  have many: "add_chunks ?T ?img [?a, ?b] = Inr ?img''"
    using add_chunks_Inr [of ?img ?T "[?a, ?b]"] by (simp add: length_example_png)
  from add_chunk_prefix_stable [of ?T ?img ?a ?img' "[?a, ?b]" ?img''] one many
  show ?thesis
    by simp
qed

text \<open>C10. \<^verbatim>\<open>idat_end_pos\<close> is the same after \<^verbatim>\<open>add_chunk\<close> (either form) and after
  \<^verbatim>\<open>clear_chunks\<close>. So in a loaded image the single-chunk \<^verbatim>\<open>add_chunk\<close> with \<open>c1\<close> and then
  with \<open>c2\<close> puts the bytes of \<open>c2\<close> before those of \<open>c1\<close>, both at the insertion offset.\<close>

theorem idat_end_pos_fixed:
  "(add_chunk T img c = Inr img1 \<longrightarrow> idat_end_pos img1 = idat_end_pos img)
   \<and> (add_chunks T img cs = Inr img2 \<longrightarrow> idat_end_pos img2 = idat_end_pos img)
   \<and> (clear_chunks T img = Inr (n, img3) \<longrightarrow> idat_end_pos img3 = idat_end_pos img)
   \<and> (Image_load file = Inr img \<longrightarrow>
        (\<exists>img4 img5.
           add_chunk T img c1 = Inr img4 \<and> add_chunk T img4 c2 = Inr img5
           \<and> image img5 = take (idat_end_pos img) (image img) @ encode T c2 @ encode T c1
                               @ drop (idat_end_pos img) (image img)))"
proof -
  have "\<exists>img4 img5.
           add_chunk T img c1 = Inr img4 \<and> add_chunk T img4 c2 = Inr img5
           \<and> image img5 = take (idat_end_pos img) (image img) @ encode T c2 @ encode T c1
                               @ drop (idat_end_pos img) (image img)"
    if "Image_load file = Inr img"
  proof -
    from Image_load_structure [OF that]
    obtain xs y post where "file = PNG_SIGNATURE @ concat xs @ y @ post" "image img = file"
      and "idat_end_pos img = length (PNG_SIGNATURE @ concat xs @ y)"
      by blast
    then have "idat_end_pos img \<le> length (image img)"
      by simp
    then show ?thesis
      by (simp add: add_chunk_Inr)
  qed
  then show ?thesis
    using add_chunks_prefix [of T img cs img2] clear_chunks_idat_end_pos [of T img n img3]
    by (auto simp add: add_chunk_Inr)
qed

theorem idat_end_pos_fixed_witness:
  "Image_load example_png = Inr \<lparr>image = example_png, idat_end_pos = 58\<rparr>
   \<and> (\<exists>img4 img5.
        add_chunk (FuseChunk_T stored_zlib) \<lparr>image = example_png, idat_end_pos = 58\<rparr>
          \<lparr>key = FuseChunk_key, value = [1]\<rparr> = Inr img4
        \<and> add_chunk (FuseChunk_T stored_zlib) img4 \<lparr>key = FuseChunk_key, value = [2]\<rparr> = Inr img5
        \<and> idat_end_pos img4 = 58
        \<and> image img5 = take 58 example_png
              @ FuseChunk_encode stored_zlib \<lparr>key = FuseChunk_key, value = [2]\<rparr>
              @ FuseChunk_encode stored_zlib \<lparr>key = FuseChunk_key, value = [1]\<rparr>
              @ drop 58 example_png)"
proof -
  let ?T = "FuseChunk_T stored_zlib"
  let ?img = "\<lparr>image = example_png, idat_end_pos = 58\<rparr>"
  let ?c1 = "\<lparr>key = FuseChunk_key, value = [1]\<rparr>"
  let ?c2 = "\<lparr>key = FuseChunk_key, value = [2]\<rparr>"
  from idat_end_pos_fixed [of ?T ?img ?c1 ?img "[]" ?img 0 ?img example_png ?c1 ?c2]
    Image_load_example
  obtain img4 img5 where a: "add_chunk ?T ?img ?c1 = Inr img4"
    and b: "add_chunk ?T img4 ?c2 = Inr img5"
    and c: "image img5 = take 58 example_png @ FuseChunk_encode stored_zlib ?c2
              @ FuseChunk_encode stored_zlib ?c1 @ drop 58 example_png"
    by fastforce
  from idat_end_pos_fixed [of ?T ?img ?c1 img4 "[]" ?img 0 ?img example_png ?c1 ?c2] a
  have "idat_end_pos img4 = 58"
    by simp
  with a b c Image_load_example show ?thesis
    by blast
qed

end
